theory Spec2Isabelle
  imports Complex_Main
begin

section \<open>Excel Assignment-Memo Line matcher: the core of \<open>app.py\<close>\<close>

text \<open>
  The matching core of the application is embedded here: \<open>clean_and_normalize_text\<close>,
  \<open>find_assignment_matches\<close>, \<open>create_filtered_output\<close>, \<open>generate_insights\<close> and
  \<open>validate_excel_structure\<close>. The Flask routes, the Excel reader and writer and the
  HTML templates are not part of it.

  Conventions of the embedding:
  \<^item> a Python string is a \<open>string\<close>; its characters are the code points below 256;
  \<^item> a spreadsheet cell is missing (\<open>NA\<close>), a text or an integer; floating point cells
    are outside the model;
  \<^item> a column label is a text or, for a numeric header cell, a number;
  \<^item> a data frame is its list of column labels and its list of rows, a row being the list
    of its cells in column order; row \<open>i\<close> of the list is the row with index label \<open>i\<close>,
    as \<open>pd.read_excel\<close> numbers them;
  \<^item> an exception is a value \<open>Inl e\<close> of a sum type;
  \<^item> the module's logger is the only state shared between calls: every function that logs
    takes the log and returns it extended;
  \<^item> Python's float quotients are the exact rationals, and the report of
    \<open>generate_insights\<close> is the record of the values its template interpolates, before
    they are formatted.
\<close>

subsection \<open>Strings\<close>

text \<open>The characters for which \<open>str.isspace\<close> holds, which are also those \<open>\s\<close> matches.\<close>

definition is_space :: "char \<Rightarrow> bool" where
  "is_space c = (c \<in> set [CHR 0x09, CHR 0x0A, CHR 0x0B, CHR 0x0C, CHR 0x0D,
      CHR 0x1C, CHR 0x1D, CHR 0x1E, CHR 0x1F, CHR 0x20, CHR 0x85, CHR 0xA0])"

text \<open>\<open>s.strip()\<close>\<close>

definition str_strip :: "string \<Rightarrow> string" where
  "str_strip s = rev (dropWhile is_space (rev (dropWhile is_space s)))"

text \<open>\<open>re.sub(r'\s+', ' ', s)\<close>: every maximal run of whitespace becomes one space.\<close>

function re_sub_ws :: "string \<Rightarrow> string" where
  "re_sub_ws [] = []"
| "re_sub_ws (c # cs) =
     (if is_space c then CHR '' '' # re_sub_ws (dropWhile is_space cs)
      else c # re_sub_ws cs)"
  by pat_completeness auto
termination
  by (relation "measure length") (auto simp: less_Suc_eq_le length_dropWhile_le)

text \<open>\<open>c.lower()\<close> on the code points below 256, and \<open>s.lower()\<close>.\<close>

definition lower_char :: "char \<Rightarrow> char" where
  "lower_char c =
     (let n = (of_char c :: nat)
      in if (65 \<le> n \<and> n \<le> 90) \<or> (192 \<le> n \<and> n \<le> 222 \<and> n \<noteq> 215)
         then char_of (n + 32) else c)"

definition str_lower :: "string \<Rightarrow> string" where
  "str_lower s = map lower_char s"

text \<open>\<open>needle in hay\<close> on strings.\<close>

fun starts_with :: "string \<Rightarrow> string \<Rightarrow> bool" where
  "starts_with hay [] = True"
| "starts_with [] (c # cs) = False"
| "starts_with (h # hs) (c # cs) = (h = c \<and> starts_with hs cs)"

fun str_contains :: "string \<Rightarrow> string \<Rightarrow> bool" where
  "str_contains [] needle = (needle = [])"
| "str_contains (h # hs) needle = (starts_with (h # hs) needle \<or> str_contains hs needle)"

text \<open>\<open>sep.join(xs)\<close>\<close>

fun str_join :: "string \<Rightarrow> string list \<Rightarrow> string" where
  "str_join sep [] = []"
| "str_join sep [x] = x"
| "str_join sep (x # y # ys) = x @ sep @ str_join sep (y # ys)"

text \<open>\<open>str(n)\<close> for integers.\<close>

definition digit_char :: "nat \<Rightarrow> char" where
  "digit_char d = char_of (48 + d)"

fun str_nat :: "nat \<Rightarrow> string" where
  "str_nat n = (if n < 10 then [digit_char n] else str_nat (n div 10) @ [digit_char (n mod 10)])"

declare str_nat.simps [simp del]

definition str_int :: "int \<Rightarrow> string" where
  "str_int i = (if i < 0 then CHR ''-'' # str_nat (nat (- i)) else str_nat (nat i))"

subsection \<open>Cells, data frames, exceptions and the log\<close>

datatype cell = NA | Str string | Num int

text \<open>
  Python compares and hashes cells by value, as the equality of this type does; the
  missing marker is one object, equal to itself as a member of a set and as a
  dictionary key.
\<close>

text \<open>\<open>pd.isna(v)\<close> and \<open>str(v)\<close> on a cell.\<close>

definition isna :: "cell \<Rightarrow> bool" where
  "isna v = (v = NA)"

fun py_str :: "cell \<Rightarrow> string" where
  "py_str NA = ''nan''"
| "py_str (Str s) = s"
| "py_str (Num i) = str_int i"

datatype error = KeyError string | IndexError | ZeroDivisionError | TypeError nat

text \<open>\<open>str(e)\<close>\<close>

fun str_error :: "error \<Rightarrow> string" where
  "str_error (KeyError k) = [CHR 0x27] @ k @ [CHR 0x27]"
| "str_error IndexError = ''single positional indexer is out-of-bounds''"
| "str_error ZeroDivisionError = ''division by zero''"
| "str_error (TypeError i) =
     ''sequence item '' @ str_nat i @ '': expected str instance, int found''"

type_synonym row = "cell list"

text \<open>
  A column label: the text of a header cell, or the number \<open>pd.read_excel\<close> keeps for a
  numeric one. A text label and a number label are never equal.
\<close>

datatype label = Name string | Number int

record dataframe =
  columns :: "label list"
  rows :: "row list"

text \<open>\<open>len(df)\<close> and \<open>df.empty\<close>: a frame is empty when one of its axes has length 0.\<close>

definition df_len :: "dataframe \<Rightarrow> nat" where
  "df_len df = length (rows df)"

definition df_empty :: "dataframe \<Rightarrow> bool" where
  "df_empty df = (columns df = [] \<or> rows df = [])"

text \<open>
  The cell of a row under a column label. A frame is rectangular; a row given with fewer
  cells than there are labels has missing cells at its end.
\<close>

definition row_cell :: "label list \<Rightarrow> row \<Rightarrow> string \<Rightarrow> cell" where
  "row_cell cols r name =
     (case map_of (zip cols r) (Name name) of Some v \<Rightarrow> v | None \<Rightarrow> NA)"

text \<open>\<open>df[name]\<close>, \<open>df.iloc[i]\<close> and \<open>df.iloc[i][name]\<close>\<close>

definition df_column :: "dataframe \<Rightarrow> string \<Rightarrow> error + cell list" where
  "df_column df name =
     (if Name name \<in> set (columns df)
      then Inr (map (\<lambda>r. row_cell (columns df) r name) (rows df))
      else Inl (KeyError name))"

definition iloc :: "dataframe \<Rightarrow> nat \<Rightarrow> error + row" where
  "iloc df i = (if i < length (rows df) then Inr (rows df ! i) else Inl IndexError)"

definition iloc_cell :: "dataframe \<Rightarrow> nat \<Rightarrow> string \<Rightarrow> error + cell" where
  "iloc_cell df i name =
     (case iloc df i of
        Inl e \<Rightarrow> Inl e
      | Inr r \<Rightarrow> if Name name \<in> set (columns df) then Inr (row_cell (columns df) r name)
                 else Inl (KeyError name))"

text \<open>
  \<open>sep.join(labels)\<close> on a list of column labels: \<open>str.join\<close> raises a \<open>TypeError\<close> that
  names the position of the first item that is not a string.
\<close>

fun label_strings :: "label list \<Rightarrow> nat \<Rightarrow> error + string list" where
  "label_strings [] i = Inr []"
| "label_strings (Name s # ls) i =
     (case label_strings ls (Suc i) of Inl e \<Rightarrow> Inl e | Inr ss \<Rightarrow> Inr (s # ss))"
| "label_strings (Number n # ls) i = Inl (TypeError i)"

definition join_labels :: "string \<Rightarrow> label list \<Rightarrow> error + string" where
  "join_labels sep ls =
     (case label_strings ls 0 of Inl e \<Rightarrow> Inl e | Inr ss \<Rightarrow> Inr (str_join sep ss))"

text \<open>
  The logger is configured at level \<open>INFO\<close>: a debug record is dropped, every other
  record is appended to the log.
\<close>

datatype level = INFO | WARNING | ERROR

type_synonym log = "(level \<times> string) list"

definition logger_debug :: "string \<Rightarrow> log \<Rightarrow> log" where
  "logger_debug msg lg = lg"

definition logger_info :: "string \<Rightarrow> log \<Rightarrow> log" where
  "logger_info msg lg = lg @ [(INFO, msg)]"

definition logger_warning :: "string \<Rightarrow> log \<Rightarrow> log" where
  "logger_warning msg lg = lg @ [(WARNING, msg)]"

definition logger_error :: "string \<Rightarrow> log \<Rightarrow> log" where
  "logger_error msg lg = lg @ [(ERROR, msg)]"

subsection \<open>\<open>clean_and_normalize_text\<close>\<close>

definition clean_and_normalize_text :: "cell \<Rightarrow> string" where
  "clean_and_normalize_text text =
     (if isna text then []
      else let text_str = str_strip (py_str text)
           in re_sub_ws text_str)"

subsection \<open>\<open>find_assignment_matches\<close>\<close>

type_synonym match = "nat \<times> nat \<times> cell \<times> cell"

text \<open>
  An item of \<open>df_clean.iterrows()\<close>, reduced to what the loops read of it: the index
  label of the row and its cells under \<open>Assignment_clean\<close> and \<open>Memo Line_clean\<close>.
\<close>

type_synonym clean_row = "nat \<times> string \<times> string"

text \<open>The inner loop, over the memo rows, for one assignment row.\<close>

fun memo_loop ::
  "dataframe \<Rightarrow> nat \<Rightarrow> string \<Rightarrow> clean_row list \<Rightarrow> match list \<Rightarrow> log
     \<Rightarrow> (error + match list) \<times> log" where
  "memo_loop df assign_idx assignment_val [] matches lg = (Inr matches, lg)"
| "memo_loop df assign_idx assignment_val ((memo_idx, _, memo_val) # rest) matches lg =
     (if assign_idx = memo_idx then memo_loop df assign_idx assignment_val rest matches lg
      else if memo_val = [] then memo_loop df assign_idx assignment_val rest matches lg
      else if str_contains (str_lower memo_val) (str_lower assignment_val) then
        (case iloc_cell df assign_idx ''Assignment'' of
           Inl e \<Rightarrow> (Inl e, lg)
         | Inr a \<Rightarrow>
             (case iloc_cell df memo_idx ''Memo Line'' of
                Inl e \<Rightarrow> (Inl e, lg)
              | Inr m \<Rightarrow>
                  memo_loop df assign_idx assignment_val rest
                    (matches @ [(assign_idx, memo_idx, a, m)])
                    (logger_info (''Match found: '' @ [CHR 0x27] @ assignment_val @ [CHR 0x27]
                        @ '' in '' @ [CHR 0x27] @ memo_val @ [CHR 0x27] @ '' (rows ''
                        @ str_nat assign_idx @ ''-'' @ str_nat memo_idx @ '')'') lg)))
      else memo_loop df assign_idx assignment_val rest matches lg)"

text \<open>The outer loop, over the assignment rows.\<close>

fun assign_loop ::
  "dataframe \<Rightarrow> clean_row list \<Rightarrow> clean_row list \<Rightarrow> match list \<Rightarrow> log
     \<Rightarrow> (error + match list) \<times> log" where
  "assign_loop df df_clean [] matches lg = (Inr matches, lg)"
| "assign_loop df df_clean ((assign_idx, assignment_val, _) # rest) matches lg =
     (if assignment_val = [] then assign_loop df df_clean rest matches lg
      else
        (case memo_loop df assign_idx assignment_val df_clean matches
                (logger_debug (''Checking assignment: '' @ [CHR 0x27] @ assignment_val
                   @ [CHR 0x27] @ '' (row '' @ str_nat assign_idx @ '')'') lg) of
           (Inl e, lg') \<Rightarrow> (Inl e, lg')
         | (Inr matches', lg') \<Rightarrow> assign_loop df df_clean rest matches' lg'))"

definition find_assignment_matches :: "dataframe \<Rightarrow> log \<Rightarrow> (error + match list) \<times> log" where
  "find_assignment_matches df lg =
     (case df_column df ''Assignment'' of
        Inl e \<Rightarrow> (Inl e, lg)
      | Inr assignment \<Rightarrow>
          (case df_column df ''Memo Line'' of
             Inl e \<Rightarrow> (Inl e, lg)
           | Inr memo_line \<Rightarrow>
               (let df_clean = zip [0 ..< df_len df]
                                 (zip (map clean_and_normalize_text assignment)
                                      (map clean_and_normalize_text memo_line));
                    lg1 = logger_info (''Starting match process with ''
                            @ str_nat (length df_clean) @ '' rows'') lg
                in case assign_loop df df_clean df_clean [] lg1 of
                     (Inl e, lg2) \<Rightarrow> (Inl e, lg2)
                   | (Inr matches, lg2) \<Rightarrow>
                       (Inr matches,
                        logger_info (''Total matches found: '' @ str_nat (length matches)) lg2))))"

subsection \<open>\<open>create_filtered_output\<close>\<close>

text \<open>The loop over the matches; its only log call is a debug record.\<close>

fun pair_loop ::
  "dataframe \<Rightarrow> match list \<Rightarrow> row list \<Rightarrow> (nat \<times> nat) set \<Rightarrow> error + row list" where
  "pair_loop df [] filtered_rows processed_pairs = Inr filtered_rows"
| "pair_loop df ((assign_idx, memo_idx, assign_val, memo_val) # rest) filtered_rows
       processed_pairs =
     (let pair_key = (min assign_idx memo_idx, max assign_idx memo_idx)
      in if pair_key \<in> processed_pairs then pair_loop df rest filtered_rows processed_pairs
         else
           (case iloc df assign_idx of
              Inl e \<Rightarrow> Inl e
            | Inr assign_row \<Rightarrow>
                (case iloc df memo_idx of
                   Inl e \<Rightarrow> Inl e
                 | Inr memo_row \<Rightarrow>
                     pair_loop df rest (filtered_rows @ [assign_row, memo_row])
                       (insert pair_key processed_pairs))))"

text \<open>\<open>pd.DataFrame()\<close>: the frame with no column and no row.\<close>

definition empty_frame :: dataframe where
  "empty_frame = \<lparr>columns = [], rows = []\<rparr>"

definition create_filtered_output ::
  "dataframe \<Rightarrow> match list \<Rightarrow> log \<Rightarrow> (error + dataframe) \<times> log" where
  "create_filtered_output df matches lg =
     (if matches = [] then
        (Inr empty_frame, logger_warning ''No matches found, returning empty DataFrame'' lg)
      else
        (case pair_loop df matches [] {} of
           Inl e \<Rightarrow> (Inl e, lg)
         | Inr filtered_rows \<Rightarrow>
             if filtered_rows \<noteq> [] then
               (let result_df = \<lparr>columns = columns df, rows = filtered_rows\<rparr>
                in (Inr result_df,
                    logger_info (''Created filtered output with '' @ str_nat (df_len result_df)
                      @ '' rows ('' @ str_nat (length filtered_rows div 2) @ '' pairs)'') lg))
             else (Inr empty_frame, lg)))"

subsection \<open>\<open>generate_insights\<close>\<close>

text \<open>
  A Python dictionary keeps its keys in insertion order: an association list in which
  storing under a present key replaces the value in place and storing under a new key
  appends the entry.
\<close>

fun dict_get :: "('k \<times> 'v) list \<Rightarrow> 'k \<Rightarrow> 'v \<Rightarrow> 'v" where
  "dict_get [] k d = d"
| "dict_get ((k', v) # rest) k d = (if k' = k then v else dict_get rest k d)"

fun dict_set :: "('k \<times> 'v) list \<Rightarrow> 'k \<Rightarrow> 'v \<Rightarrow> ('k \<times> 'v) list" where
  "dict_set [] k v = [(k, v)]"
| "dict_set ((k', v') # rest) k v =
     (if k' = k then (k', v) # rest else (k', v') # dict_set rest k v)"

text \<open>
  \<open>max(items, key=f)\<close> on a non-empty sequence: a later item replaces the best one so far
  only when its key is strictly greater.
\<close>

fun max_scan :: "('a \<Rightarrow> nat) \<Rightarrow> 'a \<Rightarrow> 'a list \<Rightarrow> 'a" where
  "max_scan f best [] = best"
| "max_scan f best (x # xs) = max_scan f (if f best < f x then x else best) xs"

text \<open>The loop that fills \<open>assignment_frequency\<close>.\<close>

fun count_loop :: "match list \<Rightarrow> (cell \<times> nat) list \<Rightarrow> (cell \<times> nat) list" where
  "count_loop [] assignment_frequency = assignment_frequency"
| "count_loop ((_, _, assign_val, _) # rest) assignment_frequency =
     count_loop rest
       (dict_set assignment_frequency assign_val (dict_get assignment_frequency assign_val 0 + 1))"

definition most_frequent_of :: "(cell \<times> nat) list \<Rightarrow> cell \<times> nat" where
  "most_frequent_of assignment_frequency =
     (case assignment_frequency of
        [] \<Rightarrow> (Str ''N/A'', 0)
      | item # items \<Rightarrow> max_scan snd item items)"

text \<open>\<open>a / b\<close> on integers.\<close>

definition py_truediv :: "nat \<Rightarrow> nat \<Rightarrow> error + rat" where
  "py_truediv a b = (if b = 0 then Inl ZeroDivisionError else Inr (of_nat a / of_nat b))"

record df_info =
  total_rows :: nat
  info_columns :: "label list"
  filename :: string

text \<open>The values the report template interpolates, in the order it evaluates them.\<close>

record insights =
  total_matches :: nat
  unique_assignments :: nat
  unique_memos :: nat
  processing_efficiency :: rat
  most_frequent :: "cell \<times> nat"
  average_matches :: rat
  total_input_rows :: nat
  output_rows :: nat
  matched_pairs :: nat

datatype report = Plain string | Summary insights

text \<open>The body of the \<open>try\<close> block once the match list is known not to be empty.\<close>

definition insights_body :: "match list \<Rightarrow> df_info \<Rightarrow> error + insights" where
  "insights_body matches info =
     (let unique_assignments = card (set (map (\<lambda>(_, _, a, _). a) matches));
          unique_memos = card (set (map (\<lambda>(_, _, _, m). m) matches));
          total_matches = length matches;
          assignment_frequency = count_loop matches [];
          most_frequent = most_frequent_of assignment_frequency
      in case py_truediv total_matches (total_rows info) of
           Inl e \<Rightarrow> Inl e
         | Inr ratio \<Rightarrow>
             (case py_truediv total_matches unique_assignments of
                Inl e \<Rightarrow> Inl e
              | Inr average \<Rightarrow>
                  Inr \<lparr>total_matches = total_matches,
                       unique_assignments = unique_assignments,
                       unique_memos = unique_memos,
                       processing_efficiency = ratio * 100,
                       most_frequent = most_frequent,
                       average_matches = average,
                       total_input_rows = total_rows info,
                       output_rows = total_matches * 2,
                       matched_pairs = total_matches\<rparr>))"

definition generate_insights :: "match list \<Rightarrow> df_info \<Rightarrow> log \<Rightarrow> report \<times> log" where
  "generate_insights matches info lg =
     (if matches = [] then
        (Plain ''No matches were found between Assignment and Memo Line columns.'', lg)
      else
        (case insights_body matches info of
           Inr r \<Rightarrow> (Summary r, logger_info ''Generated insights summary'' lg)
         | Inl e \<Rightarrow>
             (Plain (''Insights generation encountered an error: '' @ str_error e),
              logger_error (''Error generating insights: '' @ str_error e) lg)))"

subsection \<open>\<open>validate_excel_structure\<close>\<close>

definition validate_excel_structure :: "dataframe \<Rightarrow> error + bool \<times> string" where
  "validate_excel_structure df =
     (let required_columns = [''Assignment'', ''Memo Line'']
      in if df_empty df then Inr (False, ''The uploaded Excel file is empty.'')
         else
           (let missing_columns =
                  filter (\<lambda>col. Name col \<notin> set (columns df)) required_columns
            in if missing_columns \<noteq> [] then
                 (case join_labels '', '' (columns df) of
                    Inl e \<Rightarrow> Inl e
                  | Inr available_cols \<Rightarrow>
                      Inr (False,
                           ''Missing required columns: '' @ str_join '', '' missing_columns
                             @ ''. Available columns: '' @ available_cols))
               else Inr (True, ''File structure is valid.'')))"

subsection \<open>What the matcher computes\<close>

text \<open>
  The raw cells the matcher compares, the rows of \<open>df_clean\<close>, and the result of the
  nested scan written as a comprehension; the loops are proved to compute it.
\<close>

definition raw_assignment :: "dataframe \<Rightarrow> nat \<Rightarrow> cell" where
  "raw_assignment df a = row_cell (columns df) (rows df ! a) ''Assignment''"

definition raw_memo :: "dataframe \<Rightarrow> nat \<Rightarrow> cell" where
  "raw_memo df m = row_cell (columns df) (rows df ! m) ''Memo Line''"

definition memo_hits :: "dataframe \<Rightarrow> nat \<Rightarrow> string \<Rightarrow> clean_row list \<Rightarrow> match list" where
  "memo_hits df a av items =
     map (\<lambda>(m, _, mv). (a, m, raw_assignment df a, raw_memo df m))
       (filter (\<lambda>(m, _, mv). a \<noteq> m \<and> mv \<noteq> [] \<and> str_contains (str_lower mv) (str_lower av)) items)"

definition scan_hits :: "dataframe \<Rightarrow> clean_row list \<Rightarrow> clean_row list \<Rightarrow> match list" where
  "scan_hits df df_clean items =
     concat (map (\<lambda>(a, av, _). if av = [] then [] else memo_hits df a av df_clean) items)"

definition clean_rows :: "dataframe \<Rightarrow> clean_row list" where
  "clean_rows df =
     map (\<lambda>i. (i, clean_and_normalize_text (raw_assignment df i),
                 clean_and_normalize_text (raw_memo df i))) [0 ..< df_len df]"

text \<open>The order of the nested scan: by assignment row, then by memo row.\<close>

fun match_before :: "match \<Rightarrow> match \<Rightarrow> bool" where
  "match_before (a, m, _, _) (a', m', _, _) = (a < a' \<or> (a = a' \<and> m < m'))"

definition all_hits :: "dataframe \<Rightarrow> match list" where
  "all_hits df = scan_hits df (clean_rows df) (clean_rows df)"

subsection \<open>What the output builder computes\<close>

text \<open>
  The elements of a list that are the first with their key, in the order of the list.
\<close>

definition first_by :: "('a \<Rightarrow> 'k) \<Rightarrow> 'a list \<Rightarrow> 'a list" where
  "first_by key xs =
     map (\<lambda>i. xs ! i) (filter (\<lambda>i. key (xs ! i) \<notin> key ` set (take i xs)) [0 ..< length xs])"

text \<open>The unordered pair of rows of a match, and the two rows a match stands for.\<close>

fun pair_key_of :: "match \<Rightarrow> nat \<times> nat" where
  "pair_key_of (a, m, _, _) = (min a m, max a m)"

fun pair_rows :: "dataframe \<Rightarrow> match \<Rightarrow> row list" where
  "pair_rows df (a, m, _, _) = [rows df ! a, rows df ! m]"

text \<open>The elements a loop keeps when it skips every key it has seen.\<close>

fun keep_unseen :: "('a \<Rightarrow> 'k) \<Rightarrow> 'k set \<Rightarrow> 'a list \<Rightarrow> 'a list" where
  "keep_unseen key seen [] = []"
| "keep_unseen key seen (x # xs) =
     (if key x \<in> seen then keep_unseen key seen xs
      else x # keep_unseen key (insert (key x) seen) xs)"

subsection \<open>The caller's \<open>df_info\<close> and some frames\<close>

text \<open>The dictionary \<open>upload_file\<close> builds for \<open>generate_insights\<close>.\<close>

definition df_info_of :: "dataframe \<Rightarrow> string \<Rightarrow> df_info" where
  "df_info_of df fname = \<lparr>total_rows = df_len df, info_columns = columns df, filename = fname\<rparr>"

text \<open>
  A sheet with a header row only, a sheet without the \<open>Memo Line\<close> column, the same
  sheet with the number 2024 as its second header cell, and a sheet in which every
  assignment occurs in the memo line of every other row.
\<close>

definition header_only_df :: dataframe where
  "header_only_df = \<lparr>columns = [Name ''Notes''], rows = []\<rparr>"

definition no_memo_df :: dataframe where
  "no_memo_df =
     \<lparr>columns = [Name ''Assignment'', Name ''Notes''], rows = [[Str ''INV-1'', Str ''paid'']]\<rparr>"

definition year_header_df :: dataframe where
  "year_header_df =
     \<lparr>columns = [Name ''Assignment'', Number 2024], rows = [[Str ''INV-1'', Str ''paid'']]\<rparr>"

definition crowded_df :: dataframe where
  "crowded_df =
     \<lparr>columns = [Name ''Assignment'', Name ''Memo Line''],
      rows = [[Str ''A7'', Str ''pay A7''], [Str ''A7'', Str ''a7 due''], [Str ''A7'', Str ''A7'']]\<rparr>"

subsection \<open>What the summary counts\<close>

text \<open>The assignment text of a match, and a match list in which two texts tie.\<close>

fun assign_text :: "match \<Rightarrow> cell" where
  "assign_text (_, _, a, _) = a"

definition tie_matches :: "match list" where
  "tie_matches =
     [(0, 3, Str ''B-2'', Str ''b-2 and a-1''),
      (1, 3, Str ''A-1'', Str ''b-2 and a-1''),
      (2, 3, Str ''A-1'', Str ''b-2 and a-1''),
      (4, 3, Str ''B-2'', Str ''b-2 and a-1'')]"

subsection \<open>What the normaliser computes\<close>

text \<open>
  The words of a string: its maximal runs of characters that are not whitespace, in
  order. Joined by single spaces they are the string with its ends trimmed and every
  inner run of whitespace collapsed to one space.
\<close>

function split_ws :: "string \<Rightarrow> string list" where
  "split_ws [] = []"
| "split_ws (c # cs) =
     (if is_space c then split_ws cs
      else (c # takeWhile (\<lambda>x. \<not> is_space x) cs)
             # split_ws (dropWhile (\<lambda>x. \<not> is_space x) cs))"
  by pat_completeness auto
termination
  by (relation "measure length") (auto simp: less_Suc_eq_le length_dropWhile_le)

subsection \<open>The worked scenario\<close>

text \<open>
  Three rows; the second has an empty assignment, the first and the third carry the same
  assignment text, found in each other's memo line.
\<close>

definition scenario_df :: dataframe where
  "scenario_df =
     \<lparr>columns = [Name ''Assignment'', Name ''Memo Line''],
      rows = [[Str ''INV-1'', Str ''ref INV-1 paid''],
              [Str [], Str ''unrelated''],
              [Str ''INV-1'', Str ''also INV-1 here'']]\<rparr>"

definition scenario_matches :: "match list" where
  "scenario_matches =
     [(0, 2, Str ''INV-1'', Str ''also INV-1 here''),
      (2, 0, Str ''INV-1'', Str ''ref INV-1 paid'')]"

definition scenario_info :: df_info where
  "scenario_info = df_info_of scenario_df ''scenario.xlsx''"

section \<open>Properties\<close>

subsection \<open>The loops of the matcher compute the scan\<close>

lemma match_before_fst: "match_before x y = (fst x < fst y \<or> (fst x = fst y \<and> fst (snd x) < fst (snd y)))"
  by (cases x; cases y) auto

lemma starts_with_iff: "starts_with hay needle \<longleftrightarrow> (\<exists>s. hay = needle @ s)"
  by (induction hay needle rule: starts_with.induct) auto

lemma str_contains_iff: "str_contains hay needle \<longleftrightarrow> (\<exists>p s. hay = p @ needle @ s)"
proof (induction hay)
  case Nil
  then show ?case by simp
next
  case (Cons h hs)
  show ?case
  proof
    assume "str_contains (h # hs) needle"
    then consider "starts_with (h # hs) needle" | "str_contains hs needle" by auto
    then show "\<exists>p s. h # hs = p @ needle @ s"
    proof cases
      case 1
      then obtain s where "h # hs = needle @ s" by (auto simp: starts_with_iff)
      then have "h # hs = [] @ needle @ s" by simp
      then show ?thesis by blast
    next
      case 2
      then obtain p s where "hs = p @ needle @ s" using Cons.IH by blast
      then have "h # hs = (h # p) @ needle @ s" by simp
      then show ?thesis by blast
    qed
  next
    assume "\<exists>p s. h # hs = p @ needle @ s"
    then obtain p s where eq: "h # hs = p @ needle @ s" by blast
    show "str_contains (h # hs) needle"
    proof (cases p)
      case Nil
      with eq have "starts_with (h # hs) needle" by (auto simp: starts_with_iff)
      then show ?thesis by simp
    next
      case (Cons q qs)
      with eq have "hs = qs @ needle @ s" by simp
      then have "str_contains hs needle" using Cons.IH by blast
      then show ?thesis by simp
    qed
  qed
qed

lemma iloc_cell_assignment:
  "Name ''Assignment'' \<in> set (columns df) \<Longrightarrow> a < length (rows df) \<Longrightarrow>
   iloc_cell df a ''Assignment'' = Inr (raw_assignment df a)"
  by (simp add: iloc_cell_def iloc_def raw_assignment_def)

lemma iloc_cell_memo:
  "Name ''Memo Line'' \<in> set (columns df) \<Longrightarrow> m < length (rows df) \<Longrightarrow>
   iloc_cell df m ''Memo Line'' = Inr (raw_memo df m)"
  by (simp add: iloc_cell_def iloc_def raw_memo_def)

lemma memo_loop_hits:
  assumes "Name ''Assignment'' \<in> set (columns df)" "Name ''Memo Line'' \<in> set (columns df)"
    and "a < length (rows df)"
  shows "\<forall>i \<in> set (map fst items). i < length (rows df) \<Longrightarrow>
         \<exists>lg'. memo_loop df a av items matches lg = (Inr (matches @ memo_hits df a av items), lg')"
proof (induction items arbitrary: matches lg)
  case Nil
  then show ?case by (simp add: memo_hits_def)
next
  case (Cons item items)
  obtain m x mv where item: "item = (m, x, mv)" by (cases item)
  from Cons.prems item have m: "m < length (rows df)" by simp
  from Cons.prems have rest: "\<forall>i \<in> set (map fst items). i < length (rows df)" by simp
  note IH = Cons.IH [OF rest]
  have hits_skip: "\<not> (a \<noteq> m \<and> mv \<noteq> [] \<and> str_contains (str_lower mv) (str_lower av)) \<Longrightarrow>
      memo_hits df a av ((m, x, mv) # items) = memo_hits df a av items"
    by (simp add: memo_hits_def)
  have hits_take: "a \<noteq> m \<and> mv \<noteq> [] \<and> str_contains (str_lower mv) (str_lower av) \<Longrightarrow>
      memo_hits df a av ((m, x, mv) # items) =
        (a, m, raw_assignment df a, raw_memo df m) # memo_hits df a av items"
    by (simp add: memo_hits_def)
  show ?case
  proof (cases "a \<noteq> m \<and> mv \<noteq> [] \<and> str_contains (str_lower mv) (str_lower av)")
    case True
    then show ?thesis
      using IH [of "matches @ [(a, m, raw_assignment df a, raw_memo df m)]"]
      by (simp add: item hits_take iloc_cell_assignment [OF assms(1,3)]
            iloc_cell_memo [OF assms(2) m])
  next
    case False
    then show ?thesis
      using IH [of matches lg] hits_skip by (auto simp: item)
  qed
qed

lemma assign_loop_hits:
  assumes "Name ''Assignment'' \<in> set (columns df)" "Name ''Memo Line'' \<in> set (columns df)"
    and "\<forall>i \<in> set (map fst df_clean). i < length (rows df)"
  shows "\<forall>i \<in> set (map fst items). i < length (rows df) \<Longrightarrow>
         \<exists>lg'. assign_loop df df_clean items matches lg =
                 (Inr (matches @ scan_hits df df_clean items), lg')"
proof (induction items arbitrary: matches lg)
  case Nil
  then show ?case by (simp add: scan_hits_def)
next
  case (Cons item items)
  obtain a av y where item: "item = (a, av, y)" by (cases item)
  from Cons.prems item have a: "a < length (rows df)" by simp
  from Cons.prems have rest: "\<forall>i \<in> set (map fst items). i < length (rows df)" by simp
  note IH = Cons.IH [OF rest]
  show ?case
  proof (cases "av = []")
    case True
    then show ?thesis using IH [of matches lg] by (simp add: item scan_hits_def)
  next
    case False
    obtain lg1 where inner: "memo_loop df a av df_clean matches
          (logger_debug (''Checking assignment: '' @ [CHR 0x27] @ av
                   @ [CHR 0x27] @ '' (row '' @ str_nat a @ '')'') lg)
        = (Inr (matches @ memo_hits df a av df_clean), lg1)"
      using memo_loop_hits [OF assms(1,2) a assms(3)] by blast
    obtain lg2 where outer: "assign_loop df df_clean items (matches @ memo_hits df a av df_clean) lg1
        = (Inr ((matches @ memo_hits df a av df_clean) @ scan_hits df df_clean items), lg2)"
      using IH by blast
    have "scan_hits df df_clean (item # items)
        = memo_hits df a av df_clean @ scan_hits df df_clean items"
      using False by (simp add: scan_hits_def item)
    then show ?thesis using False inner outer by (simp add: item)
  qed
qed

lemma zip_upt_nth: "zip [0 ..< length xs] xs = map (\<lambda>i. (i, xs ! i)) [0 ..< length xs]"
  by (rule nth_equalityI) auto

lemma df_clean_eq:
  "zip [0 ..< df_len df]
     (zip (map clean_and_normalize_text (map (\<lambda>r. row_cell (columns df) r ''Assignment'') (rows df)))
          (map clean_and_normalize_text (map (\<lambda>r. row_cell (columns df) r ''Memo Line'') (rows df))))
   = clean_rows df"
  by (rule nth_equalityI) (auto simp: clean_rows_def df_len_def raw_assignment_def raw_memo_def)

lemma clean_rows_index: "\<forall>i \<in> set (map fst (clean_rows df)). i < length (rows df)"
  by (auto simp: clean_rows_def df_len_def)

lemma find_assignment_matches_scan:
  assumes "Name ''Assignment'' \<in> set (columns df)" "Name ''Memo Line'' \<in> set (columns df)"
  shows "\<exists>lg'. find_assignment_matches df lg =
            (Inr (scan_hits df (clean_rows df) (clean_rows df)), lg')"
proof -
  obtain lg2 where "assign_loop df (clean_rows df) (clean_rows df) []
      (logger_info (''Starting match process with ''
                            @ str_nat (length (clean_rows df)) @ '' rows'') lg)
     = (Inr ([] @ scan_hits df (clean_rows df) (clean_rows df)), lg2)"
    using assign_loop_hits [OF assms clean_rows_index clean_rows_index] by blast
  then show ?thesis
    unfolding find_assignment_matches_def df_column_def Let_def
    using assms by (simp only: if_True sum.case df_clean_eq append_Nil prod.case) blast
qed

lemma memo_hits_clean_rows:
  "memo_hits df a av (clean_rows df) =
     map (\<lambda>m. (a, m, raw_assignment df a, raw_memo df m))
       (filter (\<lambda>m. a \<noteq> m \<and> clean_and_normalize_text (raw_memo df m) \<noteq> [] \<and>
            str_contains (str_lower (clean_and_normalize_text (raw_memo df m))) (str_lower av))
          [0 ..< df_len df])"
  by (simp add: memo_hits_def clean_rows_def filter_map comp_def)

lemma scan_hits_clean_rows:
  "scan_hits df dc (clean_rows df) =
     concat (map (\<lambda>a. if clean_and_normalize_text (raw_assignment df a) = [] then []
                        else memo_hits df a (clean_and_normalize_text (raw_assignment df a)) dc)
               [0 ..< df_len df])"
  by (simp add: scan_hits_def clean_rows_def comp_def)

lemma all_hits_eq:
  "all_hits df =
     concat (map (\<lambda>a. if clean_and_normalize_text (raw_assignment df a) = [] then []
                        else memo_hits df a (clean_and_normalize_text (raw_assignment df a))
                               (clean_rows df)) [0 ..< df_len df])"
  by (simp add: all_hits_def scan_hits_clean_rows)

lemma set_all_hits:
  "(a, m, x, y) \<in> set (all_hits df) \<longleftrightarrow>
     a < df_len df \<and> m < df_len df \<and> a \<noteq> m \<and>
     x = raw_assignment df a \<and> y = raw_memo df m \<and>
     clean_and_normalize_text x \<noteq> [] \<and> clean_and_normalize_text y \<noteq> [] \<and>
     str_contains (str_lower (clean_and_normalize_text y)) (str_lower (clean_and_normalize_text x))"
  unfolding all_hits_eq memo_hits_clean_rows by auto

lemma sorted_memo_hits:
  "sorted_wrt match_before (memo_hits df a av (clean_rows df))"
  unfolding memo_hits_clean_rows
  by (simp add: sorted_wrt_map match_before_fst sorted_wrt_filter strict_sorted_iff[symmetric])

lemma fst_memo_hits: "x \<in> set (memo_hits df a av items) \<Longrightarrow> fst x = a"
  by (auto simp: memo_hits_def)

lemma sorted_concat_hits:
  "sorted_wrt (<) as \<Longrightarrow>
   sorted_wrt match_before
     (concat (map (\<lambda>a. if f a = [] then [] else memo_hits df a (f a) (clean_rows df)) as))"
proof (induction as)
  case Nil
  then show ?case by simp
next
  case (Cons a as)
  have cross: "match_before x y"
    if "x \<in> set (memo_hits df a (f a) (clean_rows df))"
      and "b \<in> set as" and "y \<in> set (memo_hits df b (f b) (clean_rows df))" for x y b
  proof -
    from Cons.prems that(2) have "a < b" by simp
    with fst_memo_hits [OF that(1)] fst_memo_hits [OF that(3)]
    show ?thesis by (simp add: match_before_fst)
  qed
  from Cons show ?case
    by (auto simp: sorted_wrt_append sorted_memo_hits split: if_splits intro: cross)
qed

lemma sorted_all_hits: "sorted_wrt match_before (all_hits df)"
  unfolding all_hits_eq by (rule sorted_concat_hits) simp

lemma match_before_irrefl: "\<not> match_before x x"
  by (simp add: match_before_fst)

lemma sorted_wrt_irrefl_distinct:
  "sorted_wrt P xs \<Longrightarrow> (\<And>x. \<not> P x x) \<Longrightarrow> distinct xs"
  by (induction xs) auto

lemma distinct_all_hits: "distinct (all_hits df)"
  by (rule sorted_wrt_irrefl_distinct [OF sorted_all_hits match_before_irrefl])

lemma find_assignment_matches_all_hits:
  assumes "Name ''Assignment'' \<in> set (columns df)" "Name ''Memo Line'' \<in> set (columns df)"
  shows "fst (find_assignment_matches df lg) = Inr (all_hits df)"
proof -
  obtain lg' where "find_assignment_matches df lg = (Inr (all_hits df), lg')"
    using find_assignment_matches_scan [OF assms] unfolding all_hits_def by blast
  then show ?thesis by simp
qed

lemma find_assignment_matches_no_column:
  "\<not> (Name ''Assignment'' \<in> set (columns df) \<and> Name ''Memo Line'' \<in> set (columns df)) \<Longrightarrow>
   fst (find_assignment_matches df lg) =
     Inl (KeyError (if Name ''Assignment'' \<in> set (columns df) then ''Memo Line'' else ''Assignment''))"
  by (auto simp: find_assignment_matches_def df_column_def)

lemma find_assignment_matches_log_free:
  "fst (find_assignment_matches df lg) = fst (find_assignment_matches df lg')"
proof (cases "Name ''Assignment'' \<in> set (columns df) \<and> Name ''Memo Line'' \<in> set (columns df)")
  case True
  then show ?thesis by (simp add: find_assignment_matches_all_hits)
next
  case False
  then show ?thesis
    using find_assignment_matches_no_column [of df lg]
      find_assignment_matches_no_column [of df lg'] by simp
qed

text \<open>Every match the matcher returns names two rows of the frame.\<close>

lemma find_assignment_matches_in_range:
  assumes "fst (find_assignment_matches df lg) = Inr matches"
  shows "\<forall>(a, m, x, y) \<in> set matches. a < df_len df \<and> m < df_len df"
proof (cases "Name ''Assignment'' \<in> set (columns df) \<and> Name ''Memo Line'' \<in> set (columns df)")
  case True
  then have "matches = all_hits df"
    using assms by (simp add: find_assignment_matches_all_hits)
  then show ?thesis by (auto simp: set_all_hits)
next
  case False
  from find_assignment_matches_no_column [OF False, of lg] assms show ?thesis by simp
qed

subsection \<open>The matcher\<close>

text \<open>
  C1. On a frame that has both columns, the matcher returns a list in which the match
  \<open>(a, m, x, y)\<close> occurs, once, exactly when \<open>a\<close> and \<open>m\<close> are two different rows of
  the frame, \<open>x\<close> is the raw \<open>Assignment\<close> cell of row \<open>a\<close> and \<open>y\<close> the raw
  \<open>Memo Line\<close> cell of row \<open>m\<close>, both normalise to non-empty strings, and the lowercase
  normalised assignment is a substring of the lowercase normalised memo line. No match
  pairs a row with itself.
\<close>

theorem find_assignment_matches_exactly:
  assumes "Name ''Assignment'' \<in> set (columns df)" and "Name ''Memo Line'' \<in> set (columns df)"
  shows "\<exists>matches. fst (find_assignment_matches df lg) = Inr matches \<and>
     distinct matches \<and>
     (\<forall>a m x y. (a, m, x, y) \<in> set matches \<longleftrightarrow>
        a < df_len df \<and> m < df_len df \<and> a \<noteq> m \<and>
        x = raw_assignment df a \<and> y = raw_memo df m \<and>
        clean_and_normalize_text x \<noteq> [] \<and> clean_and_normalize_text y \<noteq> [] \<and>
        (\<exists>p s. str_lower (clean_and_normalize_text y)
                 = p @ str_lower (clean_and_normalize_text x) @ s)) \<and>
     (\<forall>(a, m, x, y) \<in> set matches. a \<noteq> m)"
proof (intro exI conjI)
  show "fst (find_assignment_matches df lg) = Inr (all_hits df)"
    by (rule find_assignment_matches_all_hits [OF assms])
  show "distinct (all_hits df)" by (rule distinct_all_hits)
  show "\<forall>a m x y. (a, m, x, y) \<in> set (all_hits df) \<longleftrightarrow>
        a < df_len df \<and> m < df_len df \<and> a \<noteq> m \<and>
        x = raw_assignment df a \<and> y = raw_memo df m \<and>
        clean_and_normalize_text x \<noteq> [] \<and> clean_and_normalize_text y \<noteq> [] \<and>
        (\<exists>p s. str_lower (clean_and_normalize_text y)
                 = p @ str_lower (clean_and_normalize_text x) @ s)"
    by (simp only: set_all_hits str_contains_iff) blast
  show "\<forall>(a, m, x, y) \<in> set (all_hits df). a \<noteq> m"
    by (auto simp: set_all_hits)
qed

theorem find_assignment_matches_exactly_witness:
  "Name ''Assignment'' \<in> set (columns scenario_df) \<and> Name ''Memo Line'' \<in> set (columns scenario_df) \<and>
   (\<exists>matches. fst (find_assignment_matches scenario_df []) = Inr matches \<and>
     distinct matches \<and>
     (\<forall>a m x y. (a, m, x, y) \<in> set matches \<longleftrightarrow>
        a < df_len scenario_df \<and> m < df_len scenario_df \<and> a \<noteq> m \<and>
        x = raw_assignment scenario_df a \<and> y = raw_memo scenario_df m \<and>
        clean_and_normalize_text x \<noteq> [] \<and> clean_and_normalize_text y \<noteq> [] \<and>
        (\<exists>p s. str_lower (clean_and_normalize_text y)
                 = p @ str_lower (clean_and_normalize_text x) @ s)) \<and>
     (\<forall>(a, m, x, y) \<in> set matches. a \<noteq> m))"
proof -
  have a: "Name ''Assignment'' \<in> set (columns scenario_df)" by (simp add: scenario_df_def)
  have m: "Name ''Memo Line'' \<in> set (columns scenario_df)" by (simp add: scenario_df_def)
  show ?thesis
    by (rule conjI [OF a conjI [OF m find_assignment_matches_exactly [OF a m]]])
qed

text \<open>
  C5. The matches are returned in the order of the nested scan: strictly ascending by
  assignment row, and by memo row among the matches of one assignment row.
\<close>

theorem find_assignment_matches_scan_order:
  assumes "Name ''Assignment'' \<in> set (columns df)" and "Name ''Memo Line'' \<in> set (columns df)"
  shows "\<exists>matches. fst (find_assignment_matches df lg) = Inr matches \<and>
           sorted_wrt match_before matches"
  using find_assignment_matches_all_hits [OF assms] sorted_all_hits by blast

theorem find_assignment_matches_scan_order_witness:
  "Name ''Assignment'' \<in> set (columns scenario_df) \<and> Name ''Memo Line'' \<in> set (columns scenario_df) \<and>
   (\<exists>matches. fst (find_assignment_matches scenario_df []) = Inr matches \<and>
           sorted_wrt match_before matches)"
proof -
  have a: "Name ''Assignment'' \<in> set (columns scenario_df)" by (simp add: scenario_df_def)
  have m: "Name ''Memo Line'' \<in> set (columns scenario_df)" by (simp add: scenario_df_def)
  show ?thesis
    by (rule conjI [OF a conjI [OF m find_assignment_matches_scan_order [OF a m]]])
qed

text \<open>
  C9. The result of the matcher depends on the frame alone, not on the log, the only
  state a call leaves behind: a second call on the same frame, made in the state the
  first one left, returns the same matches in the same order, and so do any two calls.
\<close>

theorem find_assignment_matches_deterministic:
  "fst (find_assignment_matches df (snd (find_assignment_matches df lg)))
     = fst (find_assignment_matches df lg) \<and>
   fst (find_assignment_matches df lg1) = fst (find_assignment_matches df lg2)"
  using find_assignment_matches_log_free by blast

subsection \<open>The worked scenario, end to end\<close>

text \<open>
  C3. On the three-row scenario the matcher returns the two matches \<open>(0, 2)\<close> and
  \<open>(2, 0)\<close> in that order, with the raw cell values; the output table holds rows 0 and 2,
  so two rows; and the report has 2 matches, 1 distinct assignment, 2 distinct memo lines,
  \<open>INV-1\<close> as the most frequent assignment with count 2, an average of 2 matches per
  assignment and a processing ratio of 2/3, reported as the percentage 200/3.
\<close>

theorem scenario_end_to_end:
  "fst (find_assignment_matches scenario_df []) = Inr scenario_matches \<and>
   fst (create_filtered_output scenario_df scenario_matches []) =
     Inr \<lparr>columns = [Name ''Assignment'', Name ''Memo Line''],
          rows = [[Str ''INV-1'', Str ''ref INV-1 paid''],
                  [Str ''INV-1'', Str ''also INV-1 here'']]\<rparr> \<and>
   fst (generate_insights scenario_matches scenario_info []) =
     Summary \<lparr>total_matches = 2, unique_assignments = 1, unique_memos = 2,
       processing_efficiency = 2 / 3 * 100, most_frequent = (Str ''INV-1'', 2),
       average_matches = 2, total_input_rows = 3, output_rows = 4, matched_pairs = 2\<rparr>"
  by code_simp

subsection \<open>The output builder\<close>

lemma upt_Suc_shift: "[0 ..< Suc n] = 0 # map Suc [0 ..< n]"
  by (simp add: upt_conv_Cons map_Suc_upt del: upt_Suc)

lemma keep_unseen_index:
  "keep_unseen key seen xs =
     map (\<lambda>i. xs ! i)
       (filter (\<lambda>i. key (xs ! i) \<notin> seen \<union> key ` set (take i xs)) [0 ..< length xs])"
proof (induction xs arbitrary: seen)
  case Nil
  then show ?case by simp
next
  case (Cons x xs)
  have shift: "filter P [0 ..< Suc (length xs)] =
      (if P 0 then [0] else []) @ map Suc (filter (\<lambda>i. P (Suc i)) [0 ..< length xs])" for P
    by (simp add: upt_Suc_shift filter_map comp_def del: upt_Suc)
  show ?case
  proof (cases "key x \<in> seen")
    case True
    then have "(k \<notin> seen \<and> k \<noteq> key x \<and> P) = (k \<notin> seen \<and> P)" for k P by auto
    with True show ?thesis
      by (simp add: shift Cons.IH comp_def del: upt_Suc)
  next
    case False
    then show ?thesis
      by (simp add: shift Cons.IH comp_def conj_ac del: upt_Suc)
  qed
qed

lemma keep_unseen_first_by: "keep_unseen key {} xs = first_by key xs"
  by (simp add: keep_unseen_index first_by_def)

lemma keys_keep_unseen: "key ` set (keep_unseen key seen xs) = key ` set xs - seen"
  by (induction xs arbitrary: seen) auto

lemma distinct_keep_unseen: "distinct (map key (keep_unseen key seen xs))"
proof (induction xs arbitrary: seen)
  case Nil
  then show ?case by simp
next
  case (Cons x xs)
  have "key x \<notin> key ` set (keep_unseen key (insert (key x) seen) xs)"
    by (simp add: keys_keep_unseen)
  with Cons show ?case by simp
qed

lemma length_keep_unseen: "length (keep_unseen key {} xs) = card (key ` set xs)"
proof -
  have "length (keep_unseen key {} xs) = length (map key (keep_unseen key {} xs))" by simp
  also have "\<dots> = card (set (map key (keep_unseen key {} xs)))"
    by (rule distinct_card [symmetric]) (rule distinct_keep_unseen)
  also have "\<dots> = card (key ` set xs)" by (simp add: keys_keep_unseen)
  finally show ?thesis .
qed

lemma pair_loop_keep:
  "\<forall>(a, m, x, y) \<in> set matches. a < df_len df \<and> m < df_len df \<Longrightarrow>
   pair_loop df matches filtered_rows seen =
     Inr (filtered_rows @ concat (map (pair_rows df) (keep_unseen pair_key_of seen matches)))"
proof (induction matches arbitrary: filtered_rows seen)
  case Nil
  then show ?case by simp
next
  case (Cons mt matches)
  obtain a m x y where mt: "mt = (a, m, x, y)" by (cases mt)
  from Cons.prems mt have rng: "a < length (rows df)" "m < length (rows df)"
    by (simp_all add: df_len_def)
  from Cons.prems have rest: "\<forall>(a, m, x, y) \<in> set matches. a < df_len df \<and> m < df_len df"
    by simp
  show ?case
    using rng by (simp add: mt Cons.IH [OF rest] iloc_def Let_def)
qed

lemma length_concat_pair_rows: "length (concat (map (pair_rows df) ms)) = 2 * length ms"
  by (induction ms) auto

lemma create_filtered_output_keep:
  assumes "\<forall>(a, m, x, y) \<in> set matches. a < df_len df \<and> m < df_len df"
  shows "fst (create_filtered_output df matches lg) =
     Inr (if matches = [] then empty_frame
          else \<lparr>columns = columns df,
                rows = concat (map (pair_rows df) (first_by pair_key_of matches))\<rparr>)"
proof (cases matches)
  case Nil
  then show ?thesis by (simp add: create_filtered_output_def)
next
  case (Cons mt rest)
  then have ne: "matches \<noteq> []" by simp
  have loop: "pair_loop df matches [] {} =
      Inr (concat (map (pair_rows df) (first_by pair_key_of matches)))"
    using pair_loop_keep [OF assms, of "[]" "{}"] by (simp add: keep_unseen_first_by)
  have "length (first_by pair_key_of matches) = card (pair_key_of ` set matches)"
    by (simp add: keep_unseen_first_by [symmetric] length_keep_unseen)
  moreover have "card (pair_key_of ` set matches) \<noteq> 0" using ne by simp
  ultimately have "length (concat (map (pair_rows df) (first_by pair_key_of matches))) \<noteq> 0"
    by (simp add: length_concat_pair_rows)
  then have full: "concat (map (pair_rows df) (first_by pair_key_of matches)) \<noteq> []"
    by (simp only: length_0_conv not_False_eq_True)
  show ?thesis
    unfolding create_filtered_output_def loop
    by (simp only: ne full if_False if_True sum.case Let_def fst_conv not_False_eq_True)
qed

text \<open>
  C2. A match names two rows of the frame it was found in, as every match the matcher
  returns does. On such a match list the output builder returns a table whose rows are,
  for each match that is the first with its unordered pair of rows and in the order of
  the matches, the assignment row followed by the memo row. Its length is twice the
  number of distinct pair keys, every pair key of the matches is emitted once, and an
  empty match list gives the empty frame.
\<close>

theorem create_filtered_output_pairs:
  assumes "\<forall>(a, m, x, y) \<in> set matches. a < df_len df \<and> m < df_len df"
  shows "\<exists>out. fst (create_filtered_output df matches lg) = Inr out \<and>
      rows out = concat (map (pair_rows df) (first_by pair_key_of matches)) \<and>
      length (rows out) = 2 * card (pair_key_of ` set matches) \<and>
      distinct (map pair_key_of (first_by pair_key_of matches)) \<and>
      pair_key_of ` set (first_by pair_key_of matches) = pair_key_of ` set matches \<and>
      (matches = [] \<longrightarrow> out = empty_frame)"
proof -
  let ?out = "if matches = [] then empty_frame
          else \<lparr>columns = columns df,
                rows = concat (map (pair_rows df) (first_by pair_key_of matches))\<rparr>"
  have nil: "first_by pair_key_of [] = []" by (simp add: first_by_def)
  have r: "rows ?out = concat (map (pair_rows df) (first_by pair_key_of matches))"
    by (simp add: empty_frame_def nil)
  have l: "length (rows ?out) = 2 * card (pair_key_of ` set matches)"
    unfolding r length_concat_pair_rows
    by (simp add: keep_unseen_first_by [symmetric] length_keep_unseen)
  have d: "distinct (map pair_key_of (first_by pair_key_of matches))"
    using distinct_keep_unseen [of pair_key_of "{}" matches] by (simp add: keep_unseen_first_by)
  have k: "pair_key_of ` set (first_by pair_key_of matches) = pair_key_of ` set matches"
    using keys_keep_unseen [of pair_key_of "{}" matches] by (simp add: keep_unseen_first_by)
  have e: "matches = [] \<longrightarrow> ?out = empty_frame" by simp
  from create_filtered_output_keep [OF assms] r l d k e show ?thesis by blast
qed

theorem create_filtered_output_pairs_witness:
  "list_all (\<lambda>(a, m, x, y). a < df_len scenario_df \<and> m < df_len scenario_df) scenario_matches \<and>
   (\<exists>out. fst (create_filtered_output scenario_df scenario_matches []) = Inr out \<and>
      rows out = concat (map (pair_rows scenario_df) (first_by pair_key_of scenario_matches)) \<and>
      length (rows out) = 2 * card (pair_key_of ` set scenario_matches) \<and>
      distinct (map pair_key_of (first_by pair_key_of scenario_matches)) \<and>
      pair_key_of ` set (first_by pair_key_of scenario_matches) = pair_key_of ` set scenario_matches \<and>
      (scenario_matches = [] \<longrightarrow> out = empty_frame))"
proof -
  have h: "\<forall>(a, m, x, y) \<in> set scenario_matches. a < df_len scenario_df \<and> m < df_len scenario_df"
    by (simp add: scenario_matches_def scenario_df_def df_len_def)
  then have "list_all (\<lambda>(a, m, x, y). a < df_len scenario_df \<and> m < df_len scenario_df)
      scenario_matches"
    by (simp only: list_all_iff)
  then show ?thesis by (rule conjI [OF _ create_filtered_output_pairs [OF h]])
qed

text \<open>
  Outside that domain, on a hand-built match that names a row the frame does not have,
  \<open>df.iloc\<close> raises.
\<close>

lemma create_filtered_output_out_of_range:
  "fst (create_filtered_output scenario_df [(0, 5, Str ''INV-1'', Str ''paid'')] [])
     = Inl IndexError"
  by code_simp

subsection \<open>The summary on degenerate inputs\<close>

text \<open>
  C7. \<open>generate_insights\<close> always returns a report. On an empty match list it returns the
  fixed "no matches" text, before any ratio is computed and without a log record. On a
  non-empty match list with a row count of 0 the division raises inside the \<open>try\<close> block,
  the handler catches it, and the report is the text naming the error.
\<close>

theorem generate_insights_degenerate:
  "fst (generate_insights [] info lg)
     = Plain ''No matches were found between Assignment and Memo Line columns.'' \<and>
   snd (generate_insights [] info lg) = lg \<and>
   (matches \<noteq> [] \<and> total_rows info = 0 \<longrightarrow>
      fst (generate_insights matches info lg)
        = Plain ''Insights generation encountered an error: division by zero'')"
  by (simp add: generate_insights_def insights_body_def py_truediv_def Let_def)

theorem generate_insights_degenerate_witness:
  "fst (generate_insights [] (df_info_of header_only_df ''in.xlsx'') [])
     = Plain ''No matches were found between Assignment and Memo Line columns.'' \<and>
   scenario_matches \<noteq> [] \<and> total_rows (df_info_of header_only_df ''in.xlsx'') = 0 \<and>
   fst (generate_insights scenario_matches (df_info_of header_only_df ''in.xlsx'') [])
     = Plain ''Insights generation encountered an error: division by zero''"
proof -
  have n: "scenario_matches \<noteq> []" by (simp add: scenario_matches_def)
  have z: "total_rows (df_info_of header_only_df ''in.xlsx'') = 0"
    by (simp add: df_info_of_def header_only_df_def df_len_def)
  from generate_insights_degenerate
         [of "df_info_of header_only_df ''in.xlsx''" "[]" scenario_matches] n z
  show ?thesis by blast
qed

subsection \<open>The validator\<close>

lemma label_strings_names: "label_strings (map Name names) i = Inr names"
  by (induction names arbitrary: i) auto

lemma join_labels_names: "join_labels sep (map Name names) = Inr (str_join sep names)"
  by (simp add: join_labels_def label_strings_names)

text \<open>
  C8, as amended. Whenever the validator returns a result, it accepts the frame exactly
  when the frame is not empty and has both required columns. It returns a result on every
  empty frame, with the message that the file is empty, whatever its columns; on every
  frame that is not empty and has both columns; and on every frame that is not empty,
  lacks a required column and has only text labels, with the message that names the
  missing columns and lists the columns the frame has.
\<close>

theorem validate_excel_structure_message:
  "(df_empty df \<longrightarrow>
      validate_excel_structure df = Inr (False, ''The uploaded Excel file is empty.'')) \<and>
   (\<not> df_empty df \<and>
    Name ''Assignment'' \<in> set (columns df) \<and> Name ''Memo Line'' \<in> set (columns df) \<longrightarrow>
      validate_excel_structure df = Inr (True, ''File structure is valid.'')) \<and>
   (\<not> df_empty df \<and>
    \<not> (Name ''Assignment'' \<in> set (columns df) \<and> Name ''Memo Line'' \<in> set (columns df)) \<and>
    columns df = map Name names \<longrightarrow>
      validate_excel_structure df =
        Inr (False,
             ''Missing required columns: ''
               @ str_join '', ''
                   (filter (\<lambda>col. Name col \<notin> set (columns df)) [''Assignment'', ''Memo Line''])
               @ ''. Available columns: '' @ str_join '', '' names)) \<and>
   (validate_excel_structure df = Inr (ok, msg) \<longrightarrow>
      ok = (\<not> df_empty df \<and>
            Name ''Assignment'' \<in> set (columns df) \<and> Name ''Memo Line'' \<in> set (columns df)))"
proof (intro conjI impI)
  assume "df_empty df"
  then show "validate_excel_structure df = Inr (False, ''The uploaded Excel file is empty.'')"
    by (simp add: validate_excel_structure_def)
next
  assume "\<not> df_empty df \<and>
    Name ''Assignment'' \<in> set (columns df) \<and> Name ''Memo Line'' \<in> set (columns df)"
  then show "validate_excel_structure df = Inr (True, ''File structure is valid.'')"
    by (simp add: validate_excel_structure_def)
next
  assume a: "\<not> df_empty df \<and>
    \<not> (Name ''Assignment'' \<in> set (columns df) \<and> Name ''Memo Line'' \<in> set (columns df)) \<and>
    columns df = map Name names"
  then have j: "join_labels '', '' (columns df) = Inr (str_join '', '' names)"
    by (simp only: join_labels_names)
  from a show "validate_excel_structure df =
        Inr (False,
             ''Missing required columns: ''
               @ str_join '', ''
                   (filter (\<lambda>col. Name col \<notin> set (columns df)) [''Assignment'', ''Memo Line''])
               @ ''. Available columns: '' @ str_join '', '' names)"
    unfolding validate_excel_structure_def Let_def j by auto
next
  assume "validate_excel_structure df = Inr (ok, msg)"
  then show "ok = (\<not> df_empty df \<and>
            Name ''Assignment'' \<in> set (columns df) \<and> Name ''Memo Line'' \<in> set (columns df))"
    by (auto simp: validate_excel_structure_def Let_def split: if_splits sum.splits)
qed

theorem validate_excel_structure_message_witness:
  "df_empty header_only_df \<and>
   validate_excel_structure header_only_df = Inr (False, ''The uploaded Excel file is empty.'') \<and>
   \<not> df_empty scenario_df \<and>
   Name ''Assignment'' \<in> set (columns scenario_df) \<and>
   Name ''Memo Line'' \<in> set (columns scenario_df) \<and>
   validate_excel_structure scenario_df = Inr (True, ''File structure is valid.'') \<and>
   \<not> df_empty no_memo_df \<and>
   \<not> (Name ''Assignment'' \<in> set (columns no_memo_df) \<and>
      Name ''Memo Line'' \<in> set (columns no_memo_df)) \<and>
   columns no_memo_df = map Name [''Assignment'', ''Notes''] \<and>
   validate_excel_structure no_memo_df =
     Inr (False, ''Missing required columns: Memo Line. Available columns: Assignment, Notes'')"
proof -
  have e: "df_empty header_only_df" by (simp add: df_empty_def header_only_df_def)
  have v: "\<not> df_empty scenario_df \<and>
      Name ''Assignment'' \<in> set (columns scenario_df) \<and>
      Name ''Memo Line'' \<in> set (columns scenario_df)"
    by (simp add: df_empty_def scenario_df_def)
  have a: "\<not> df_empty no_memo_df" by (simp add: df_empty_def no_memo_df_def)
  have b: "\<not> (Name ''Assignment'' \<in> set (columns no_memo_df) \<and>
      Name ''Memo Line'' \<in> set (columns no_memo_df))"
    by (simp add: no_memo_df_def)
  have cols: "columns no_memo_df = map Name [''Assignment'', ''Notes'']"
    by (simp add: no_memo_df_def)
  have flt: "filter (\<lambda>col. Name col \<notin> set (columns no_memo_df)) [''Assignment'', ''Memo Line'']
      = [''Memo Line'']"
    by (simp add: no_memo_df_def)
  note t1 = validate_excel_structure_message [of header_only_df]
  note t2 = validate_excel_structure_message [of scenario_df]
  note t3 = validate_excel_structure_message [of no_memo_df "[''Assignment'', ''Notes'']"]
  from t1 e have r1: "validate_excel_structure header_only_df
      = Inr (False, ''The uploaded Excel file is empty.'')"
    by blast
  from t2 v have r2: "validate_excel_structure scenario_df
      = Inr (True, ''File structure is valid.'')"
    by blast
  from t3 a b cols have "validate_excel_structure no_memo_df =
        Inr (False,
             ''Missing required columns: ''
               @ str_join '', ''
                   (filter (\<lambda>col. Name col \<notin> set (columns no_memo_df))
                      [''Assignment'', ''Memo Line''])
               @ ''. Available columns: '' @ str_join '', '' [''Assignment'', ''Notes''])"
    by blast
  then have r3: "validate_excel_structure no_memo_df =
     Inr (False, ''Missing required columns: Memo Line. Available columns: Assignment, Notes'')"
    unfolding flt by simp
  from e r1 v r2 a b cols r3 show ?thesis by blast
qed

text \<open>
  A sheet with a header row and no data row lacks both required columns, and the message
  names neither them nor the column it has.
\<close>

theorem validate_excel_structure_header_only:
  "validate_excel_structure header_only_df = Inr (False, ''The uploaded Excel file is empty.'')"
  by (simp add: validate_excel_structure_def header_only_df_def df_empty_def)

text \<open>
  A sheet that is not empty, lacks the \<open>Memo Line\<close> column and has a number as a header
  cell: listing the available columns raises, and the validator returns no message.
\<close>

lemma validate_excel_structure_number_label:
  "validate_excel_structure year_header_df = Inl (TypeError 1)"
  by (simp add: validate_excel_structure_def year_header_df_def df_empty_def join_labels_def)

subsection \<open>The processing ratio\<close>

text \<open>
  C10. The reported percentage is the number of directed matches divided by the number of
  rows, times 100, with no cap: there is a valid frame whose matches outnumber its rows,
  so that the percentage exceeds 100.
\<close>

theorem processing_efficiency_above_100:
  "\<exists>df matches r.
     validate_excel_structure df = Inr (True, ''File structure is valid.'') \<and>
     fst (find_assignment_matches df []) = Inr matches \<and>
     fst (generate_insights matches (df_info_of df ''in.xlsx'') []) = Summary r \<and>
     total_input_rows r = df_len df \<and>
     df_len df < total_matches r \<and>
     processing_efficiency r = of_nat (total_matches r) / of_nat (df_len df) * 100 \<and>
     100 < processing_efficiency r"
proof -
  let ?ms = "[(0, 1, Str ''A7'', Str ''a7 due''), (0, 2, Str ''A7'', Str ''A7''),
              (1, 0, Str ''A7'', Str ''pay A7''), (1, 2, Str ''A7'', Str ''A7''),
              (2, 0, Str ''A7'', Str ''pay A7''), (2, 1, Str ''A7'', Str ''a7 due'')]"
  let ?r = "\<lparr>total_matches = 6, unique_assignments = 1, unique_memos = 3,
       processing_efficiency = 200, most_frequent = (Str ''A7'', 6),
       average_matches = 6, total_input_rows = 3, output_rows = 12, matched_pairs = 6\<rparr>"
  have v: "validate_excel_structure crowded_df = Inr (True, ''File structure is valid.'')"
    by code_simp
  have f: "fst (find_assignment_matches crowded_df []) = Inr ?ms" by code_simp
  have g: "fst (generate_insights ?ms (df_info_of crowded_df ''in.xlsx'') []) = Summary ?r"
    by code_simp
  have n: "df_len crowded_df = 3" by (simp add: df_len_def crowded_df_def)
  have "total_input_rows ?r = df_len crowded_df \<and>
     df_len crowded_df < total_matches ?r \<and>
     processing_efficiency ?r = of_nat (total_matches ?r) / of_nat (df_len crowded_df) * 100 \<and>
     100 < processing_efficiency ?r"
    by (simp add: n)
  with v f g show ?thesis by blast
qed

subsection \<open>The most frequent assignment\<close>

lemma dict_new_key:
  "k \<notin> fst ` set d \<Longrightarrow> dict_get d k v0 = v0 \<and> dict_set d k v = d @ [(k, v)]"
  by (induction d) auto

lemma dict_bump_key:
  "k \<in> fst ` set d \<Longrightarrow> distinct (map fst d) \<Longrightarrow>
   dict_set d k (dict_get d k 0 + 1) = map (\<lambda>(k', c). (k', if k' = k then c + 1 else c)) d"
proof (induction d)
  case Nil
  then show ?case by simp
next
  case (Cons e d)
  obtain k' c where e: "e = (k', c)" by (cases e)
  show ?case
  proof (cases "k' = k")
    case True
    with Cons.prems e have "k \<notin> fst ` set d" by auto
    then have "map (\<lambda>(k', c). (k', if k' = k then c + 1 else c)) d = d"
      by (induction d) auto
    with True e show ?thesis by simp
  next
    case False
    with Cons e show ?thesis by auto
  qed
qed

lemma count_loop_general:
  "distinct (map fst freq) \<Longrightarrow>
   count_loop ms freq =
     map (\<lambda>(k, c). (k, c + count_list (map assign_text ms) k)) freq
     @ map (\<lambda>k. (k, count_list (map assign_text ms) k))
         (keep_unseen id (fst ` set freq) (map assign_text ms))"
proof (induction ms arbitrary: freq)
  case Nil
  then show ?case by simp
next
  case (Cons mt ms)
  obtain i j a b where mt: "mt = (i, j, a, b)" by (cases mt)
  let ?texts = "map assign_text ms"
  show ?case
  proof (cases "a \<in> fst ` set freq")
    case True
    let ?freq' = "map (\<lambda>(k', c). (k', if k' = a then c + 1 else c)) freq"
    have step: "dict_set freq a (dict_get freq a 0 + 1) = ?freq'"
      by (rule dict_bump_key [OF True Cons.prems])
    have keys: "map fst ?freq' = map fst freq" by (induction freq) auto
    then have keys': "fst ` set ?freq' = fst ` set freq"
      by (metis list.set_map)
    have d: "distinct (map fst ?freq')" unfolding keys by (rule Cons.prems)
    have left: "map (\<lambda>(k, c). (k, c + count_list ?texts k)) ?freq'
        = map (\<lambda>(k, c). (k, c + count_list (a # ?texts) k)) freq"
      by (induction freq) auto
    have right: "map (\<lambda>k. (k, count_list ?texts k)) ks
        = map (\<lambda>k. (k, count_list (a # ?texts) k)) ks" if "a \<notin> set ks" for ks
      using that by (induction ks) auto
    have unseen: "a \<notin> set (keep_unseen id (fst ` set freq) ?texts)"
      using keys_keep_unseen [of id "fst ` set freq" ?texts] True by auto
    have lhs: "count_loop (mt # ms) freq = count_loop ms (dict_set freq a (dict_get freq a 0 + 1))"
      by (simp add: mt)
    have texts: "map assign_text (mt # ms) = a # ?texts" by (simp add: mt)
    have ku: "keep_unseen id (fst ` set freq) (a # ?texts)
        = keep_unseen id (fst ` set freq) ?texts"
      using True by simp
    show ?thesis
      by (simp only: lhs texts ku step Cons.IH [OF d] keys' left right [OF unseen])
  next
    case False
    have step: "dict_set freq a (dict_get freq a 0 + 1) = freq @ [(a, 1)]"
      using dict_new_key [OF False, of 0] by simp
    have d: "distinct (map fst (freq @ [(a, 1)]))" using Cons.prems False by simp
    have left: "map (\<lambda>(k, c). (k, c + count_list ?texts k)) freq
        = map (\<lambda>(k, c). (k, c + count_list (a # ?texts) k)) freq"
      using False by (induction freq) auto
    have right: "map (\<lambda>k. (k, count_list ?texts k)) ks
        = map (\<lambda>k. (k, count_list (a # ?texts) k)) ks" if "a \<notin> set ks" for ks
      using that by (induction ks) auto
    have unseen: "a \<notin> set (keep_unseen id (insert a (fst ` set freq)) ?texts)"
      using keys_keep_unseen [of id "insert a (fst ` set freq)" ?texts] by auto
    have lhs: "count_loop (mt # ms) freq = count_loop ms (dict_set freq a (dict_get freq a 0 + 1))"
      by (simp add: mt)
    have texts: "map assign_text (mt # ms) = a # ?texts" by (simp add: mt)
    have ku: "keep_unseen id (fst ` set freq) (a # ?texts)
        = a # keep_unseen id (insert a (fst ` set freq)) ?texts"
      using False by simp
    have keys': "fst ` set (freq @ [(a, 1)]) = insert a (fst ` set freq)" by auto
    have one: "map (\<lambda>(k, c). (k, c + count_list ?texts k)) (freq @ [(a, 1)])
        = map (\<lambda>(k, c). (k, c + count_list (a # ?texts) k)) freq
          @ [(a, count_list (a # ?texts) a)]"
      by (simp add: left)
    show ?thesis
      unfolding lhs texts
      by (simp only: ku step Cons.IH [OF d] keys' one right [OF unseen]
            list.map append_assoc append_Cons append_Nil)
  qed
qed

lemma count_loop_table:
  "count_loop ms [] =
     map (\<lambda>k. (k, count_list (map assign_text ms) k)) (first_by id (map assign_text ms))"
  using count_loop_general [of "[]" ms] by (simp add: keep_unseen_first_by)

lemma max_scan_invariant:
  "\<forall>y \<in> set p. f y < f best \<Longrightarrow> \<forall>y \<in> set s. f y \<le> f best \<Longrightarrow>
   \<exists>p' s'. p @ best # s @ xs = p' @ max_scan f best xs # s' \<and>
     (\<forall>y \<in> set p'. f y < f (max_scan f best xs)) \<and>
     (\<forall>y \<in> set s'. f y \<le> f (max_scan f best xs))"
proof (induction xs arbitrary: p best s)
  case Nil
  then show ?case by auto
next
  case (Cons x xs)
  show ?case
  proof (cases "f best < f x")
    case True
    have "\<forall>y \<in> set (p @ best # s). f y < f x"
      using Cons.prems True by fastforce
    from Cons.IH [OF this, of "[]"] True show ?thesis by simp
  next
    case False
    have "\<forall>y \<in> set (s @ [x]). f y \<le> f best" using Cons.prems(2) False by auto
    from Cons.IH [OF Cons.prems(1) this] False show ?thesis by simp
  qed
qed

lemma max_scan_split:
  "\<exists>p s. x # xs = p @ max_scan f x xs # s \<and>
     (\<forall>y \<in> set p. f y < f (max_scan f x xs)) \<and>
     (\<forall>y \<in> set s. f y \<le> f (max_scan f x xs))"
  using max_scan_invariant [of "[]" f x "[]" xs] by simp

lemma keep_unseen_append:
  "keep_unseen key seen (xs @ ys) =
     keep_unseen key seen xs @ keep_unseen key (seen \<union> key ` set xs) ys"
  by (induction xs arbitrary: seen) (auto simp: insert_absorb)

lemma split_at_first_unique:
  "A @ v # B = A' @ v # B' \<Longrightarrow> v \<notin> set A \<Longrightarrow> v \<notin> set A' \<Longrightarrow> A = A'"
proof -
  assume eq: "A @ v # B = A' @ v # B'" and a: "v \<notin> set A" and a': "v \<notin> set A'"
  have "takeWhile (\<lambda>x. x \<noteq> v) (A @ v # B) = A" using a by (induction A) auto
  moreover have "takeWhile (\<lambda>x. x \<noteq> v) (A' @ v # B') = A'" using a' by (induction A') auto
  ultimately show ?thesis using eq by simp
qed

lemma most_frequent_of_table:
  assumes "ms \<noteq> []"
  defines "texts \<equiv> map assign_text ms"
  shows "\<exists>v p s. most_frequent_of (count_loop ms []) = (v, count_list texts v) \<and>
     (\<forall>w \<in> set texts. count_list texts w \<le> count_list texts v) \<and>
     texts = p @ v # s \<and>
     (\<forall>w \<in> set p. count_list texts w < count_list texts v)"
proof -
  let ?K = "first_by id texts"
  let ?g = "\<lambda>k. (k, count_list texts k)"
  have table: "count_loop ms [] = map ?g ?K"
    unfolding texts_def by (rule count_loop_table)
  have K: "?K = keep_unseen id {} texts" by (simp add: keep_unseen_first_by)
  have setK: "set ?K = set texts"
    using keys_keep_unseen [of id "{}" texts] by (simp add: K)
  have dK: "distinct ?K"
    using distinct_keep_unseen [of id "{}" texts] by (simp add: K)
  from assms have "texts \<noteq> []" by simp
  then have "set ?K \<noteq> {}" unfolding setK by simp
  then obtain k ks where Kc: "?K = k # ks" by (cases ?K) auto
  let ?r = "max_scan snd (?g k) (map ?g ks)"
  have mf: "most_frequent_of (count_loop ms []) = ?r"
    by (simp add: table Kc most_frequent_of_def)
  obtain P S where split: "?g k # map ?g ks = P @ ?r # S"
    and lt: "\<forall>y \<in> set P. snd y < snd ?r" and le: "\<forall>y \<in> set S. snd y \<le> snd ?r"
    using max_scan_split [of "?g k" "map ?g ks" snd] by blast
  have T: "map ?g ?K = P @ ?r # S" using split by (simp add: Kc)
  then have "?r \<in> set (map ?g ?K)" by simp
  then obtain v where v: "v \<in> set ?K" and r: "?r = (v, count_list texts v)" by auto
  have img: "y = ?g (fst y)" if "y \<in> set P \<or> y \<in> set S" for y
  proof -
    from that T have "y \<in> set (map ?g ?K)" by auto
    then show ?thesis by auto
  qed
  have Ksplit: "?K = map fst P @ v # map fst S"
  proof -
    have "map fst (map ?g ?K) = ?K" by (simp add: comp_def)
    with T r show ?thesis by simp
  qed
  have ltP: "count_list texts w < count_list texts v" if "w \<in> set (map fst P)" for w
  proof -
    from that obtain y where y: "y \<in> set P" "w = fst y" by auto
    with img [of y] have "snd y = count_list texts w" by (metis snd_conv)
    with lt y r show ?thesis by (metis snd_conv)
  qed
  have leS: "count_list texts w \<le> count_list texts v" if "w \<in> set (map fst S)" for w
  proof -
    from that obtain y where y: "y \<in> set S" "w = fst y" by auto
    with img [of y] have "snd y = count_list texts w" by (metis snd_conv)
    with le y r show ?thesis by (metis snd_conv)
  qed
  have all: "\<forall>w \<in> set texts. count_list texts w \<le> count_list texts v"
  proof
    fix w assume "w \<in> set texts"
    then have "w \<in> set (map fst P) \<or> w = v \<or> w \<in> set (map fst S)"
      using setK Ksplit by (metis Un_iff set_ConsD set_append)
    then consider "w \<in> set (map fst P)" | "w = v" | "w \<in> set (map fst S)" by blast
    then show "count_list texts w \<le> count_list texts v"
    proof cases
      case 1
      then show ?thesis using ltP [of w] by (simp only: less_imp_le)
    next
      case 2
      then show ?thesis by simp
    next
      case 3
      then show ?thesis by (rule leS)
    qed
  qed
  from v setK have "v \<in> set texts" by simp
  then obtain p s where ts: "texts = p @ v # s" and vp: "v \<notin> set p"
    by (auto dest: split_list_first)
  have "?K = keep_unseen id {} p @ v # keep_unseen id (insert v (set p)) s"
    using vp by (simp add: keep_unseen_first_by [symmetric] ts keep_unseen_append)
  moreover have "v \<notin> set (keep_unseen id {} p)"
    using keys_keep_unseen [of id "{}" p] vp by simp
  moreover have "v \<notin> set (map fst P)"
  proof -
    have "distinct (map fst P @ v # map fst S)" by (simp only: Ksplit [symmetric] dK)
    then show ?thesis by simp
  qed
  ultimately have "map fst P = keep_unseen id {} p"
    using Ksplit split_at_first_unique [of "map fst P" v "map fst S"] by metis
  then have "set (map fst P) = set p"
    using keys_keep_unseen [of id "{}" p] by simp
  with ltP have "\<forall>w \<in> set p. count_list texts w < count_list texts v" by blast
  with mf r all ts show ?thesis by metis
qed

lemma generate_insights_most_frequent:
  assumes "matches \<noteq> []" and "total_rows info \<noteq> 0"
  shows "\<exists>r. fst (generate_insights matches info lg) = Summary r \<and>
           most_frequent r = most_frequent_of (count_loop matches [])"
proof -
  have "set (map (\<lambda>(_, _, a, _). a) matches) \<noteq> {}" using assms(1) by simp
  then have "card (set (map (\<lambda>(_, _, a, _). a) matches)) \<noteq> 0" by simp
  then show ?thesis
    using assms by (simp add: generate_insights_def insights_body_def py_truediv_def Let_def)
qed

text \<open>
  C6. When there are matches and rows, the report's most frequent assignment is a text
  \<open>v\<close> with its number of matches; no assignment text has more matches, and every text that
  occurs in the match list before the first occurrence of \<open>v\<close> has strictly fewer, so that
  among the texts with the maximum count the first encountered wins. The frequency table
  it is taken from lists each text once, in the order of first occurrence, with its count.
\<close>

theorem most_frequent_first_maximum:
  assumes "matches \<noteq> []" and "total_rows info \<noteq> 0"
  shows "\<exists>r v p s. fst (generate_insights matches info lg) = Summary r \<and>
     most_frequent r = (v, count_list (map assign_text matches) v) \<and>
     (\<forall>w \<in> set (map assign_text matches).
        count_list (map assign_text matches) w \<le> count_list (map assign_text matches) v) \<and>
     map assign_text matches = p @ v # s \<and>
     (\<forall>w \<in> set p.
        count_list (map assign_text matches) w < count_list (map assign_text matches) v) \<and>
     count_loop matches [] =
       map (\<lambda>k. (k, count_list (map assign_text matches) k))
         (first_by id (map assign_text matches))"
proof -
  obtain r where r: "fst (generate_insights matches info lg) = Summary r"
      "most_frequent r = most_frequent_of (count_loop matches [])"
    using generate_insights_most_frequent [OF assms] by blast
  obtain v p s where
      "most_frequent_of (count_loop matches []) = (v, count_list (map assign_text matches) v)"
      "\<forall>w \<in> set (map assign_text matches).
        count_list (map assign_text matches) w \<le> count_list (map assign_text matches) v"
      "map assign_text matches = p @ v # s"
      "\<forall>w \<in> set p.
        count_list (map assign_text matches) w < count_list (map assign_text matches) v"
    using most_frequent_of_table [OF assms(1)] by blast
  with r count_loop_table [of matches] show ?thesis by metis
qed

theorem most_frequent_first_maximum_witness:
  "tie_matches \<noteq> [] \<and> total_rows (df_info_of crowded_df ''in.xlsx'') \<noteq> 0 \<and>
   (\<exists>r v p s. fst (generate_insights tie_matches (df_info_of crowded_df ''in.xlsx'') []) = Summary r \<and>
     most_frequent r = (v, count_list (map assign_text tie_matches) v) \<and>
     (\<forall>w \<in> set (map assign_text tie_matches).
        count_list (map assign_text tie_matches) w \<le> count_list (map assign_text tie_matches) v) \<and>
     map assign_text tie_matches = p @ v # s \<and>
     (\<forall>w \<in> set p.
        count_list (map assign_text tie_matches) w < count_list (map assign_text tie_matches) v) \<and>
     count_loop tie_matches [] =
       map (\<lambda>k. (k, count_list (map assign_text tie_matches) k))
         (first_by id (map assign_text tie_matches))) \<and>
   most_frequent_of (count_loop tie_matches []) = (Str ''B-2'', 2) \<and>
   count_loop tie_matches [] = [(Str ''B-2'', 2), (Str ''A-1'', 2)]"
proof -
  have n: "tie_matches \<noteq> []" by (simp add: tie_matches_def)
  have z: "total_rows (df_info_of crowded_df ''in.xlsx'') \<noteq> 0"
    by (simp add: df_info_of_def crowded_df_def df_len_def)
  have t: "count_loop tie_matches [] = [(Str ''B-2'', 2), (Str ''A-1'', 2)]"
    by code_simp
  have m: "most_frequent_of (count_loop tie_matches []) = (Str ''B-2'', 2)"
    by code_simp
  from most_frequent_first_maximum [OF n z, of "[]"] n z t m show ?thesis by blast
qed

subsection \<open>The normaliser\<close>

lemma split_ws_spaces: "\<forall>x \<in> set w. is_space x \<Longrightarrow> split_ws w = []"
  by (induction w) auto

lemma split_ws_dropWhile: "split_ws (dropWhile is_space s) = split_ws s"
  by (induction s) auto

lemma takeWhile_append_stop: "takeWhile P w = [] \<Longrightarrow> takeWhile P (cs @ w) = takeWhile P cs"
  by (induction cs) auto

lemma dropWhile_append_stop: "dropWhile P w = w \<Longrightarrow> dropWhile P (cs @ w) = dropWhile P cs @ w"
  by (induction cs) auto

lemma rev_dropWhile_split:
  "rev (dropWhile P (rev xs)) @ rev (takeWhile P (rev xs)) = xs"
proof -
  have "rev (takeWhile P (rev xs) @ dropWhile P (rev xs)) = xs"
    by (simp only: takeWhile_dropWhile_id rev_rev_ident)
  then show ?thesis by (simp only: rev_append)
qed

lemma split_ws_append_spaces:
  "\<forall>x \<in> set w. is_space x \<Longrightarrow> split_ws (s @ w) = split_ws s"
proof (induction s rule: split_ws.induct)
  case 1
  then show ?case by (simp add: split_ws_spaces)
next
  case (2 c cs)
  show ?case
  proof (cases "is_space c")
    case True
    with 2 show ?thesis by simp
  next
    case False
    have tw: "takeWhile (\<lambda>x. \<not> is_space x) w = []"
      using "2.prems" by (cases w) auto
    have dw: "dropWhile (\<lambda>x. \<not> is_space x) w = w"
      using "2.prems" by (cases w) auto
    have t: "takeWhile (\<lambda>x. \<not> is_space x) (cs @ w) = takeWhile (\<lambda>x. \<not> is_space x) cs"
      by (rule takeWhile_append_stop [OF tw])
    have d: "dropWhile (\<lambda>x. \<not> is_space x) (cs @ w) = dropWhile (\<lambda>x. \<not> is_space x) cs @ w"
      by (rule dropWhile_append_stop [OF dw])
    from False "2.IH"(2) [OF False "2.prems"] show ?thesis
      by (simp add: t d)
  qed
qed

lemma split_ws_strip: "split_ws (str_strip s) = split_ws s"
proof -
  let ?d = "dropWhile is_space s"
  have "?d = str_strip s @ rev (takeWhile is_space (rev ?d))"
    unfolding str_strip_def by (rule rev_dropWhile_split [symmetric])
  moreover have "\<forall>x \<in> set (rev (takeWhile is_space (rev ?d))). is_space x"
    by (auto dest: set_takeWhileD)
  ultimately have "split_ws ?d = split_ws (str_strip s)"
    using split_ws_append_spaces by metis
  then show ?thesis by (simp add: split_ws_dropWhile)
qed

lemma str_strip_last: "str_strip s = [] \<or> \<not> is_space (last (str_strip s))"
proof (cases "str_strip s = []")
  case True
  then show ?thesis by simp
next
  case False
  let ?r = "dropWhile is_space (rev (dropWhile is_space s))"
  from False have ne: "?r \<noteq> []" by (simp add: str_strip_def)
  then have "\<not> is_space (hd ?r)" by (rule hd_dropWhile)
  moreover have "last (str_strip s) = hd ?r"
    using ne by (simp add: str_strip_def last_rev)
  ultimately show ?thesis by simp
qed

lemma str_strip_hd: "str_strip s = [] \<or> \<not> is_space (hd (str_strip s))"
proof (cases "str_strip s = []")
  case True
  then show ?thesis by simp
next
  case False
  let ?d = "dropWhile is_space s"
  have eq: "?d = str_strip s @ rev (takeWhile is_space (rev ?d))"
    unfolding str_strip_def by (rule rev_dropWhile_split [symmetric])
  have ne: "?d \<noteq> []"
  proof
    assume e: "?d = []"
    have "str_strip s = []" unfolding str_strip_def e by simp
    with False show False by simp
  qed
  then have "\<not> is_space (hd ?d)" by (rule hd_dropWhile)
  moreover have "hd ?d = hd (str_strip s)"
    using False eq by (metis hd_append2)
  ultimately show ?thesis by simp
qed

text \<open>
  A word is not empty and holds no whitespace, and the words of a string together are
  its characters that are not whitespace, in order.
\<close>

lemma split_ws_words:
  "w \<in> set (split_ws s) \<Longrightarrow> w \<noteq> [] \<and> (\<forall>c \<in> set w. \<not> is_space c)"
proof (induction s rule: split_ws.induct)
  case 1
  then show ?case by simp
next
  case (2 c cs)
  show ?case
  proof (cases "is_space c")
    case True
    with 2 show ?thesis by simp
  next
    case False
    from "2.prems" False consider "w = c # takeWhile (\<lambda>x. \<not> is_space x) cs"
      | "w \<in> set (split_ws (dropWhile (\<lambda>x. \<not> is_space x) cs))" by auto
    then show ?thesis
    proof cases
      case 1
      then show ?thesis using False by (auto dest: set_takeWhileD)
    next
      case 2
      then show ?thesis by (rule "2.IH"(2) [OF False])
    qed
  qed
qed

lemma filter_take_drop:
  "filter P xs = takeWhile P xs @ filter P (dropWhile P xs)"
  by (induction xs) auto

lemma split_ws_content: "concat (split_ws s) = filter (\<lambda>c. \<not> is_space c) s"
proof (induction s rule: split_ws.induct)
  case 1
  then show ?case by simp
next
  case (2 c cs)
  show ?case
  proof (cases "is_space c")
    case True
    with 2 show ?thesis by simp
  next
    case False
    have "concat (split_ws (c # cs)) = c # takeWhile (\<lambda>x. \<not> is_space x) cs
        @ concat (split_ws (dropWhile (\<lambda>x. \<not> is_space x) cs))"
      using False by simp
    also have "\<dots> = c # takeWhile (\<lambda>x. \<not> is_space x) cs
        @ filter (\<lambda>c. \<not> is_space c) (dropWhile (\<lambda>x. \<not> is_space x) cs)"
      by (simp only: "2.IH"(2) [OF False])
    also have "\<dots> = c # filter (\<lambda>c. \<not> is_space c) cs"
      by (simp only: filter_take_drop [symmetric])
    finally show ?thesis using False by simp
  qed
qed

lemma split_ws_nonempty: "\<exists>x \<in> set t. \<not> is_space x \<Longrightarrow> split_ws t \<noteq> []"
  by (induction t) auto

lemma str_join_cons: "str_join sep ((c # w) # rest) = c # str_join sep (w # rest)"
  by (cases rest) auto

lemma str_join_more: "rest \<noteq> [] \<Longrightarrow> str_join sep (w # rest) = w @ sep @ str_join sep rest"
  by (cases rest) auto

lemma last_dropWhile: "dropWhile P xs \<noteq> [] \<Longrightarrow> last (dropWhile P xs) = last xs"
  by (induction xs) (auto split: if_splits)

lemma re_sub_ws_join:
  "t = [] \<or> \<not> is_space (last t) \<Longrightarrow>
   re_sub_ws t =
     (if t \<noteq> [] \<and> is_space (hd t) then CHR '' '' # str_join '' '' (split_ws t)
      else str_join '' '' (split_ws t))"
proof (induction t rule: re_sub_ws.induct)
  case 1
  then show ?case by simp
next
  case (2 c cs)
  from "2.prems" have lastc: "\<not> is_space (last (c # cs))" by simp
  show ?case
  proof (cases "is_space c")
    case True
    let ?d = "dropWhile is_space cs"
    from True lastc have cs: "cs \<noteq> []" by auto
    with lastc have lcs: "\<not> is_space (last cs)" by simp
    have "last cs \<in> set cs" using cs by simp
    with lcs have d: "?d \<noteq> []" by (auto simp: dropWhile_eq_Nil_conv)
    then have hd: "\<not> is_space (hd ?d)" by (rule hd_dropWhile)
    have "last ?d = last cs" using d by (rule last_dropWhile)
    with lcs have "?d = [] \<or> \<not> is_space (last ?d)" by simp
    from "2.IH"(1) [OF True this] d hd
    have "re_sub_ws ?d = str_join '' '' (split_ws ?d)" by simp
    with True show ?thesis by (simp add: split_ws_dropWhile)
  next
    case False
    have pre: "cs = [] \<or> \<not> is_space (last cs)" using lastc by (cases cs) auto
    note IH = "2.IH"(2) [OF False pre]
    show ?thesis
    proof (cases cs)
      case Nil
      with False show ?thesis by simp
    next
      case (Cons x xs)
      show ?thesis
      proof (cases "is_space x")
        case True
        have "last cs \<in> set cs" using Cons by simp
        with pre Cons have "\<exists>y \<in> set cs. \<not> is_space y" by blast
        then have ne: "split_ws cs \<noteq> []" by (rule split_ws_nonempty)
        have "split_ws (c # cs) = [c] # split_ws cs"
          using False True Cons by simp
        then have "str_join '' '' (split_ws (c # cs)) = c # CHR '' '' # str_join '' '' (split_ws cs)"
          using ne by (simp add: str_join_more)
        moreover have "re_sub_ws cs = CHR '' '' # str_join '' '' (split_ws cs)"
          using IH True Cons by simp
        ultimately show ?thesis using False by simp
      next
        case nsp: False
        have "split_ws (c # cs) =
            (c # x # takeWhile (\<lambda>x. \<not> is_space x) xs)
              # split_ws (dropWhile (\<lambda>x. \<not> is_space x) xs)"
          using False nsp Cons by simp
        moreover have "split_ws cs =
            (x # takeWhile (\<lambda>x. \<not> is_space x) xs)
              # split_ws (dropWhile (\<lambda>x. \<not> is_space x) xs)"
          using nsp Cons by simp
        ultimately have "str_join '' '' (split_ws (c # cs)) = c # str_join '' '' (split_ws cs)"
          by (simp only: str_join_cons)
        moreover have "re_sub_ws cs = str_join '' '' (split_ws cs)"
          using IH nsp Cons by simp
        ultimately show ?thesis using False by simp
      qed
    qed
  qed
qed

lemma re_sub_ws_strip: "re_sub_ws (str_strip s) = str_join '' '' (split_ws s)"
  using re_sub_ws_join [OF str_strip_last [of s]] str_strip_hd [of s]
  by (auto simp: split_ws_strip)

text \<open>
  C4. \<open>clean_and_normalize_text\<close> is a total function without effect. It returns the
  empty string on a missing cell; on any other cell it returns the words of the cell's
  string form joined by single spaces, that is the string form trimmed at both ends with
  every inner run of whitespace collapsed to one space.
\<close>

theorem clean_and_normalize_text_words:
  "clean_and_normalize_text text =
     (if isna text then [] else str_join '' '' (split_ws (py_str text)))"
  by (simp add: clean_and_normalize_text_def re_sub_ws_strip)

end
